theory Spec2Isabelle
  imports Main "HOL-Library.Product_Lexorder" "HOL-Library.List_Lexorder"
    "HOL-Library.Multiset"
begin

section \<open>Data model\<close>

text \<open>
  A Python \<open>str\<close> is a sequence of Unicode code points; a symbol is modelled by its code
  point and a string by the list of its code points. Python's \<open>int\<close> is unbounded and is
  modelled by \<open>int\<close>; \<open>//\<close> and \<open>%\<close> round towards minus infinity, as \<open>div\<close> and
  \<open>mod\<close> on \<open>int\<close> do.
\<close>

type_synonym symbol = nat
type_synonym pystr = "symbol list"

text \<open>
  The exceptions the code can raise. \<open>FloatRounding\<close> is not a Python exception: it marks
  the inputs on which \<open>solve_linear_comparison\<close> goes on in rounded double arithmetic,
  which this development does not follow (see there).
\<close>

datatype error = ValueError | IndexError | TypeError | ZeroDivisionError | OverflowError
  | FloatRounding

text \<open>\<open>ALPHABET\<close>: the 31 Cyrillic letters of the source, in the source's order
  (U+0430 .. U+0449, then U+044C, U+044B, U+044D, U+044E, U+044F).\<close>

definition ALPHABET :: pystr where
  "ALPHABET = [1072, 1073, 1074, 1075, 1076, 1077, 1078, 1079, 1080, 1081, 1082, 1083,
     1084, 1085, 1086, 1087, 1088, 1089, 1090, 1091, 1092, 1093, 1094, 1095, 1096, 1097,
     1100, 1099, 1101, 1102, 1103]"

text \<open>\<open>MOST_FREQUENTLY_BIGRAMS\<close>: the five reference digraphs of the source.\<close>

definition MOST_FREQUENTLY_BIGRAMS :: "pystr list" where
  "MOST_FREQUENTLY_BIGRAMS =
     [[1089, 1090], [1085, 1086], [1090, 1086], [1085, 1072], [1077, 1085]]"

text \<open>\<open>len(ALPHABET) ** 2\<close>\<close>

definition modulus :: int where
  "modulus = int (length ALPHABET) ^ 2"

section \<open>Python primitives\<close>

text \<open>\<open>xs.index(c)\<close>: the first position of \<open>c\<close>, ValueError when there is none.\<close>

fun index_py :: "'a list \<Rightarrow> 'a \<Rightarrow> error + int" where
  "index_py [] c = Inl ValueError"
| "index_py (x # xs) c =
     (if x = c then Inr 0
      else (case index_py xs c of Inl e \<Rightarrow> Inl e | Inr i \<Rightarrow> Inr (i + 1)))"

text \<open>\<open>xs[i]\<close>: a negative index counts from the end, IndexError out of range.\<close>

definition getitem :: "'a list \<Rightarrow> int \<Rightarrow> error + 'a" where
  "getitem xs i =
     (if 0 \<le> i \<and> i < int (length xs) then Inr (xs ! nat i)
      else if - int (length xs) \<le> i \<and> i < 0 then Inr (xs ! nat (int (length xs) + i))
      else Inl IndexError)"

text \<open>Sequencing of computations that may raise.\<close>

definition bindE :: "error + 'a \<Rightarrow> ('a \<Rightarrow> error + 'b) \<Rightarrow> error + 'b" where
  "bindE r f = (case r of Inl e \<Rightarrow> Inl e | Inr v \<Rightarrow> f v)"

fun mapE :: "('a \<Rightarrow> error + 'b) \<Rightarrow> 'a list \<Rightarrow> error + 'b list" where
  "mapE f [] = Inr []"
| "mapE f (x # xs) =
     (case f x of Inl e \<Rightarrow> Inl e
      | Inr y \<Rightarrow> (case mapE f xs of Inl e \<Rightarrow> Inl e | Inr ys \<Rightarrow> Inr (y # ys)))"

section \<open>Frequency analysis\<close>

text \<open>
  \<open>f_dict\<close> is a Python dict, which keeps its keys in insertion order: an association
  list with distinct keys. \<open>dict_incr\<close> is the body of the counting loop: a key that is
  present has its count incremented in place, a new key is appended with count 1.
\<close>

type_synonym f_dict = "(pystr \<times> int) list"

fun dict_incr :: "pystr \<Rightarrow> f_dict \<Rightarrow> f_dict" where
  "dict_incr k [] = [(k, 1)]"
| "dict_incr k ((k', c) # d) =
     (if k' = k then (k', c + 1) # d else (k', c) # dict_incr k d)"

text \<open>The loop \<open>for i in range(0, len(string) - 1, step)\<close> over its list of indices; every
  index \<open>i\<close> of the range has \<open>i + 1 < len(string)\<close>, so both reads are in range.\<close>

fun bigram_loop :: "pystr \<Rightarrow> nat list \<Rightarrow> f_dict \<Rightarrow> f_dict" where
  "bigram_loop string [] d = d"
| "bigram_loop string (i # is) d =
     bigram_loop string is (dict_incr [string ! i, string ! (i + 1)] d)"

text \<open>
  \<open>sorted(f_dict.items(), key=lambda x: (x[1], x[0]), reverse=True)\<close>. Python's sort is
  stable and \<open>reverse=True\<close> keeps that stability: the list is reversed, sorted ascending
  and reversed again. The key is the pair (count, digraph), compared lexicographically;
  strings compare lexicographically by code point.
\<close>

definition sorted_reverse :: "f_dict \<Rightarrow> f_dict" where
  "sorted_reverse items = rev (sort_key (\<lambda>x. (snd x, fst x)) (rev items))"

text \<open>
  \<open>get_bigrams_frequency(string, step, sort)\<close>. \<open>range\<close> raises ValueError for step 0.
  For a negative step the range is empty unless the stop \<open>len(string) - 1\<close> is negative,
  that is, the string is empty: then it is \<open>[0]\<close> and \<open>string[0]\<close> raises IndexError.
  For a positive step the indices are the multiples of \<open>step\<close> below \<open>len(string) - 1\<close>
  (none when the string is empty: the truncated subtraction on \<open>nat\<close> gives the empty
  range there, as \<open>range(0, -1)\<close> does).
\<close>

definition get_bigrams_frequency :: "pystr \<Rightarrow> int \<Rightarrow> bool \<Rightarrow> error + f_dict" where
  "get_bigrams_frequency string step sort_flag =
     (if step = 0 then Inl ValueError
      else if step < 0 then (if string = [] then Inl IndexError
                             else Inr (if \<not> sort_flag then [] else sorted_reverse []))
      else
        (let f_dict = bigram_loop string
                        (filter (\<lambda>i. int i mod step = 0) [0..<length string - 1]) []
         in Inr (if \<not> sort_flag then f_dict else sorted_reverse f_dict)))"

section \<open>Modular arithmetic\<close>

text \<open>The loop of \<open>gcd\<close>: \<open>while n: q, b, n = b // n, n, b % n; x0, x1 = x1, x0 - q * x1\<close>.\<close>

function gcd_loop :: "int \<Rightarrow> int \<Rightarrow> int \<Rightarrow> int \<Rightarrow> int \<times> int" where
  "gcd_loop b n x0 x1 =
     (if n = 0 then (b, x0) else gcd_loop n (b mod n) x1 (x0 - (b div n) * x1))"
  by pat_completeness auto
termination
  by (relation "measure (\<lambda>(b, n, x0, x1). nat \<bar>n\<bar>)") (auto simp: abs_mod_less)

definition gcd_py :: "int \<Rightarrow> int \<Rightarrow> int \<times> int" where
  "gcd_py b n = gcd_loop b n 1 0"

text \<open>\<open>get_inverse(a, b)\<close>: \<open>x % b\<close> raises ZeroDivisionError when \<open>b\<close> is 0.\<close>

definition get_inverse :: "int \<Rightarrow> int \<Rightarrow> error + (int \<times> int option)" where
  "get_inverse a b =
     (case gcd_py a b of (d, x) \<Rightarrow>
        if d = 1 then (if b = 0 then Inl ZeroDivisionError else Inr (d, Some (x mod b)))
        else Inr (d, None))"

text \<open>
  The branch \<open>a, b, m = a / d, b / d, m / d\<close> of \<open>solve_linear_comparison\<close> computes in
  doubles: \<open>/\<close> is Python's true division, and \<open>gcd\<close>, \<open>%\<close>, \<open>*\<close> and \<open>+\<close> then work on
  floats until \<open>int(...)\<close> converts back.
  \<^item> True division of integers raises OverflowError when the quotient is too large for a
    double; it certainly is when its magnitude is at least \<open>2 ^ 1024\<close>.
  \<^item> A double holds every integer of magnitude up to \<open>2 ^ 53\<close> exactly. The quotients are
    exact (\<open>d\<close> divides \<open>a\<close>, \<open>m\<close> and, in this branch, \<open>b\<close>), and when \<open>a\<close>, \<open>b\<close> and \<open>m\<close>
    are below \<open>2 ^ 26\<close> in magnitude every intermediate value (the quotients and
    remainders of the Euclidean loop, its coefficients, the product \<open>b * inverse\<close> and the
    sums \<open>x0 + (i - 1) * m\<close>) is an integer below \<open>2 ^ 53\<close>: the float computation then
    agrees with the same computation on integers, which is what the model performs.
  \<^item> Between the two the source goes on with rounded values; the model stops there with
    \<open>FloatRounding\<close> and says nothing about the result.
\<close>

definition float_exact :: "int \<Rightarrow> bool" where
  "float_exact v = (\<bar>v\<bar> < 2 ^ 26)"

definition float_overflow :: "int \<Rightarrow> bool" where
  "float_overflow v = (2 ^ 1024 \<le> \<bar>v\<bar>)"

text \<open>
  \<open>solve_linear_comparison(a, b, m)\<close>. \<open>if a_inv:\<close> tests truthiness: it fails for \<open>None\<close>
  and also for the inverse 0. \<open>b % d\<close> raises ZeroDivisionError for \<open>d = 0\<close>. In the
  first branch \<open>m\<close> is not 0 (\<open>get_inverse\<close> would have raised), and in the reduced branch
  \<open>b * None\<close> raises TypeError. Falling off the end returns \<open>None\<close>. The body of the
  \<open>elif\<close> is \<open>reduced_branch\<close>.
\<close>

definition reduced_branch :: "int \<Rightarrow> int \<Rightarrow> int \<Rightarrow> int \<Rightarrow> error + int list option" where
  "reduced_branch a b m d =
     (if float_overflow (a div d) \<or> float_overflow (b div d) \<or> float_overflow (m div d)
      then Inl OverflowError
      else if \<not> (float_exact a \<and> float_exact b \<and> float_exact m) then Inl FloatRounding
      else
        (let a' = a div d; b' = b div d; m' = m div d
         in bindE (get_inverse a' m') (\<lambda>(d', a_inv').
              case a_inv' of None \<Rightarrow> Inl TypeError
              | Some v \<Rightarrow>
                  (let x0 = (b' * v) mod m'
                   in Inr (Some (map (\<lambda>i. x0 + (i - 1) * m') [1..d]))))))"

definition solve_linear_comparison :: "int \<Rightarrow> int \<Rightarrow> int \<Rightarrow> error + int list option" where
  "solve_linear_comparison a b m =
     bindE (get_inverse a m) (\<lambda>(d, a_inv).
       if a_inv \<noteq> None \<and> a_inv \<noteq> Some 0 then Inr (Some [(the a_inv * b) mod m])
       else if d = 0 then Inl ZeroDivisionError
       else if b mod d = 0 then reduced_branch a b m d
       else Inr None)"

section \<open>Key derivation and decryption\<close>

text \<open>
  The expression \<open>ALPHABET.index(s[0]) * len(ALPHABET) + ALPHABET.index(s[1])\<close>, which the
  source writes out for each digraph, evaluated left to right.
\<close>

definition bigram_number :: "pystr \<Rightarrow> error + int" where
  "bigram_number s =
     bindE (getitem s 0) (\<lambda>c0. bindE (index_py ALPHABET c0) (\<lambda>i0.
     bindE (getitem s 1) (\<lambda>c1. bindE (index_py ALPHABET c1) (\<lambda>i1.
       Inr (i0 * int (length ALPHABET) + i1)))))"

definition get_key1 :: "pystr \<Rightarrow> pystr \<Rightarrow> pystr \<Rightarrow> pystr \<Rightarrow> error + int list option" where
  "get_key1 x1 x2 y1 y2 =
     bindE (bigram_number x1) (\<lambda>x1'. bindE (bigram_number x2) (\<lambda>x2'.
     bindE (bigram_number y1) (\<lambda>y1'. bindE (bigram_number y2) (\<lambda>y2'.
     bindE (solve_linear_comparison (y1' - y2') (x1' - x2') modulus) (\<lambda>results.
       case results of None \<Rightarrow> Inr None
       | Some rs \<Rightarrow>
           bindE (mapE (\<lambda>i. get_inverse i modulus) rs) (\<lambda>invs.
             Inr (Some (map the (filter (\<lambda>x. x \<noteq> None) (map snd invs))))))))))"

text \<open>\<open>**\<close> binds tighter than \<open>%\<close>: \<open>(y1 - a * x1) % len(ALPHABET) ** 2\<close> is the
  remainder modulo the square.\<close>

definition get_key2 :: "pystr \<Rightarrow> pystr \<Rightarrow> int \<Rightarrow> error + int" where
  "get_key2 x1 y1 a =
     bindE (bigram_number x1) (\<lambda>x1'. bindE (bigram_number y1) (\<lambda>y1'.
       Inr ((y1' - a * x1') mod modulus)))"

text \<open>
  The loop of \<open>decrypt_from_affinity_sub\<close>, \<open>for i in range(0, len(string), 2)\<close>, on the
  rest of the string from position \<open>i\<close>, with \<open>new_str\<close> as accumulator. \<open>string[i + 1]\<close>
  raises IndexError when one symbol is left; \<open>None * (y - key[1])\<close> raises TypeError.
\<close>

fun decrypt_loop :: "pystr \<Rightarrow> int \<times> int \<Rightarrow> pystr \<Rightarrow> error + pystr" where
  "decrypt_loop [] key new_str = Inr new_str"
| "decrypt_loop (c0 # rest) key new_str =
     (case index_py ALPHABET c0 of Inl e \<Rightarrow> Inl e
      | Inr i0 \<Rightarrow>
         (case rest of [] \<Rightarrow> Inl IndexError
          | c1 # rest' \<Rightarrow>
             (case index_py ALPHABET c1 of Inl e \<Rightarrow> Inl e
              | Inr i1 \<Rightarrow>
                 (case get_inverse (fst key) modulus of Inl e \<Rightarrow> Inl e
                  | Inr (d, None) \<Rightarrow> Inl TypeError
                  | Inr (d, Some a_inv) \<Rightarrow>
                     (let y = i0 * int (length ALPHABET) + i1;
                          x = (a_inv * (y - snd key)) mod modulus
                      in (case getitem ALPHABET (x div int (length ALPHABET)) of
                            Inl e \<Rightarrow> Inl e
                          | Inr s0 \<Rightarrow>
                             (case getitem ALPHABET (x mod int (length ALPHABET)) of
                                Inl e \<Rightarrow> Inl e
                              | Inr s1 \<Rightarrow>
                                 decrypt_loop rest' key (new_str @ [s0, s1]))))))))"

definition decrypt_from_affinity_sub :: "pystr \<Rightarrow> int \<times> int \<Rightarrow> error + pystr" where
  "decrypt_from_affinity_sub string key = decrypt_loop string key []"

section \<open>Candidate search\<close>

text \<open>
  \<open>itertools.permutations(xs, 2)\<close>: the ordered pairs of entries at two different
  positions, in lexicographic order of the positions.
\<close>

definition permutations2 :: "'a list \<Rightarrow> ('a \<times> 'a) list" where
  "permutations2 xs =
     concat (map (\<lambda>i. map (\<lambda>j. (xs ! i, xs ! j)) (filter (\<lambda>j. j \<noteq> i) [0..<length xs]))
                 [0..<length xs])"

text \<open>\<open>xs[:n]\<close>: a negative \<open>n\<close> drops that many entries from the end.\<close>

definition slice_to :: "'a list \<Rightarrow> int \<Rightarrow> 'a list" where
  "slice_to xs n = (if 0 \<le> n then take (nat n) xs else take (nat (int (length xs) + n)) xs)"

text \<open>
  \<open>gnc_keys(string, f_size, check_bw=False)\<close>. The function returns \<open>None\<close> on every path;
  what it does is to save the decrypted text and print the key of the first candidate that
  passes, or nothing. The model returns that outcome: \<open>Some (key, d_text)\<close> for the text
  saved and the key printed, \<open>None\<close> when the loops run out.

  The test \<open>check_text_correctness(Counter(d_text), get_bigrams_frequency(d_text,
  sort=False), len(d_text))\<close> compares entropies computed in floating point with
  \<open>log2\<close>. It depends on \<open>d_text\<close> only and raises nothing (every count it divides and
  takes the logarithm of is positive, and no division happens for the empty text), so it
  is taken as a parameter \<open>check\<close> from texts to truth values.

  The three nested \<open>for\<close> loops are three recursive functions, innermost first; a
  \<open>return\<close> in an inner loop ends the outer ones.
\<close>

type_synonym outcome = "((int \<times> int) \<times> pystr) option"

fun solution_loop ::
  "(pystr \<Rightarrow> bool) \<Rightarrow> pystr \<Rightarrow> pystr \<Rightarrow> pystr \<Rightarrow> int list \<Rightarrow> error + outcome" where
  "solution_loop check string i0 c [] = Inr None"
| "solution_loop check string i0 c (solution # rest) =
     (case get_key2 i0 c solution of Inl e \<Rightarrow> Inl e
      | Inr k2 \<Rightarrow>
         (case decrypt_from_affinity_sub string (solution, k2) of Inl e \<Rightarrow> Inl e
          | Inr d_text \<Rightarrow>
             if check d_text then Inr (Some ((solution, k2), d_text))
             else solution_loop check string i0 c rest))"

fun frequency_loop ::
  "(pystr \<Rightarrow> bool) \<Rightarrow> pystr \<Rightarrow> f_dict \<Rightarrow> pystr \<times> pystr \<Rightarrow> nat list \<Rightarrow> error + outcome" where
  "frequency_loop check string f_list i [] = Inr None"
| "frequency_loop check string f_list i (j # js) =
     (case get_key1 (fst i) (snd i) (fst (f_list ! j)) (fst (f_list ! (j + 1))) of
        Inl e \<Rightarrow> Inl e
      | Inr None \<Rightarrow> frequency_loop check string f_list i js
      | Inr (Some key_1) \<Rightarrow>
         (case solution_loop check string (fst i) (fst (f_list ! j)) key_1 of
            Inl e \<Rightarrow> Inl e
          | Inr (Some found) \<Rightarrow> Inr (Some found)
          | Inr None \<Rightarrow> frequency_loop check string f_list i js))"

fun permutation_loop ::
  "(pystr \<Rightarrow> bool) \<Rightarrow> pystr \<Rightarrow> f_dict \<Rightarrow> (pystr \<times> pystr) list \<Rightarrow> error + outcome" where
  "permutation_loop check string f_list [] = Inr None"
| "permutation_loop check string f_list (i # is) =
     (case frequency_loop check string f_list i [0..<length f_list - 1] of
        Inl e \<Rightarrow> Inl e
      | Inr (Some found) \<Rightarrow> Inr (Some found)
      | Inr None \<Rightarrow> permutation_loop check string f_list is)"

definition gnc_keys :: "(pystr \<Rightarrow> bool) \<Rightarrow> pystr \<Rightarrow> int \<Rightarrow> error + outcome" where
  "gnc_keys check string f_size =
     bindE (get_bigrams_frequency string 1 True) (\<lambda>ranked.
       permutation_loop check string (slice_to ranked f_size)
         (permutations2 MOST_FREQUENTLY_BIGRAMS))"

text \<open>
  The outcomes of the search in which no key is emitted: the loops run out, or an alphabet
  lookup raises ValueError, or a read past the end of a string raises IndexError.
\<close>

definition no_key :: "error + outcome \<Rightarrow> bool" where
  "no_key r = (r = Inr None \<or> r = Inl ValueError \<or> r = Inl IndexError)"

text \<open>A check that accepts every text, to run the search on concrete inputs.\<close>

definition accept_all :: "pystr \<Rightarrow> bool" where
  "accept_all d_text = True"

section \<open>Definitions that follow the specification\<close>

text \<open>
  Modelled from the spec: the repository has no encryption function. The glossary says
  that the affine cipher "encrypts each 2-symbol block by mapping it to an integer X in
  [0, A^2), computing Y = (a * X + b) mod A^2, and re-expanding Y into two output
  symbols", and the data model maps a digraph to \<open>index(first) * A + index(second)\<close> "and
  back". The result is \<open>None\<close> for a text that is not a sequence of digraphs over the
  alphabet.
\<close>

fun encrypt :: "pystr \<Rightarrow> int \<times> int \<Rightarrow> pystr option" where
  "encrypt [] key = Some []"
| "encrypt [c] key = None"
| "encrypt (c0 # c1 # rest) key =
     (case (index_py ALPHABET c0, index_py ALPHABET c1) of
        (Inr i0, Inr i1) \<Rightarrow>
          (let X = i0 * int (length ALPHABET) + i1;
               Y = (fst key * X + snd key) mod modulus
           in (case encrypt rest key of None \<Rightarrow> None
               | Some r \<Rightarrow>
                   Some (ALPHABET ! nat (Y div int (length ALPHABET))
                         # ALPHABET ! nat (Y mod int (length ALPHABET)) # r)))
      | _ \<Rightarrow> None)"

text \<open>
  The ranking the specification describes: count descending and, for equal counts, key
  ascending; and the ranking with the key descending as well.
\<close>

definition ranked_desc_asc :: "f_dict \<Rightarrow> bool" where
  "ranked_desc_asc items =
     sorted_wrt (\<lambda>x y. snd y < snd x \<or> (snd x = snd y \<and> fst x \<le> fst y)) items"

definition ranked_desc_desc :: "f_dict \<Rightarrow> bool" where
  "ranked_desc_desc items =
     sorted_wrt (\<lambda>x y. snd y < snd x \<or> (snd x = snd y \<and> fst y \<le> fst x)) items"

text \<open>
  The search as the specification describes it: the candidates in the fixed order
  (permutations of the reference digraphs outermost, adjacent pairs \<open>(j, j + 1)\<close> of the
  truncated frequency table next, the \<open>a\<close>-values in the order \<open>get_key1\<close> returns them
  innermost), each with its key and decrypted text or the exception its evaluation
  raises; and the first match, which looks at nothing after the candidate it accepts.
\<close>

definition spec_candidate :: "pystr \<Rightarrow> pystr \<Rightarrow> pystr \<Rightarrow> int \<Rightarrow> error + (int \<times> int) \<times> pystr" where
  "spec_candidate string p c a =
     bindE (get_key2 p c a) (\<lambda>b.
       bindE (decrypt_from_affinity_sub string (a, b)) (\<lambda>d_text. Inr ((a, b), d_text)))"

definition spec_pair_candidates ::
  "pystr \<Rightarrow> f_dict \<Rightarrow> pystr \<times> pystr \<Rightarrow> nat \<Rightarrow> (error + (int \<times> int) \<times> pystr) list" where
  "spec_pair_candidates string f_list i j =
     (case get_key1 (fst i) (snd i) (fst (f_list ! j)) (fst (f_list ! (j + 1))) of
        Inl e \<Rightarrow> [Inl e]
      | Inr None \<Rightarrow> []
      | Inr (Some key_1) \<Rightarrow> map (spec_candidate string (fst i) (fst (f_list ! j))) key_1)"

definition spec_candidates :: "pystr \<Rightarrow> int \<Rightarrow> (error + (int \<times> int) \<times> pystr) list" where
  "spec_candidates string f_size =
     (case get_bigrams_frequency string 1 True of
        Inl e \<Rightarrow> [Inl e]
      | Inr ranked \<Rightarrow>
         (let f_list = slice_to ranked f_size
          in concat (map (\<lambda>i. concat (map (spec_pair_candidates string f_list i)
                                            [0..<length f_list - 1]))
                         (permutations2 MOST_FREQUENTLY_BIGRAMS))))"

fun spec_first_match ::
  "(pystr \<Rightarrow> bool) \<Rightarrow> (error + (int \<times> int) \<times> pystr) list \<Rightarrow> error + outcome" where
  "spec_first_match check [] = Inr None"
| "spec_first_match check (Inl e # rest) = Inl e"
| "spec_first_match check (Inr (key, d_text) # rest) =
     (if check d_text then Inr (Some (key, d_text)) else spec_first_match check rest)"

section \<open>Frequency analysis: the ranking and the total\<close>

lemma sum_dict_incr: "sum_list (map snd (dict_incr k d)) = sum_list (map snd d) + 1"
  by (induction k d rule: dict_incr.induct) auto

lemma sum_bigram_loop:
  "sum_list (map snd (bigram_loop string is d)) = sum_list (map snd d) + int (length is)"
  by (induction string "is" d rule: bigram_loop.induct) (auto simp: sum_dict_incr)

lemma sum_sorted_reverse: "sum_list (map snd (sorted_reverse d)) = sum_list (map snd d)"
proof -
  have "mset (sorted_reverse d) = mset d"
    by (simp add: sorted_reverse_def)
  then have "sum_mset (image_mset snd (mset (sorted_reverse d)))
             = sum_mset (image_mset snd (mset d))"
    by simp
  then show ?thesis
    by (metis mset_map sum_mset_sum_list)
qed

lemma ranked_sorted_reverse: "ranked_desc_desc (sorted_reverse d)"
proof -
  let ?f = "\<lambda>x::pystr \<times> int. (snd x, fst x)"
  have "sorted (map ?f (sort_key ?f (rev d)))"
    by (rule sorted_sort_key)
  then have "sorted_wrt (\<lambda>x y. ?f x \<le> ?f y) (sort_key ?f (rev d))"
    by (simp add: sorted_wrt_map)
  then have "sorted_wrt (\<lambda>x y. ?f y \<le> ?f x) (sorted_reverse d)"
    by (simp add: sorted_reverse_def sorted_wrt_rev)
  then show ?thesis
    unfolding ranked_desc_desc_def
    by (rule sorted_wrt_mono_rel [rotated]) (auto simp: less_eq_prod_def)
qed

text \<open>
  C4, as the code has it: for every text, the ranked output of \<open>get_bigrams_frequency\<close>
  with sort enabled is sorted descending by count, and entries with equal counts are
  sorted descending by digraph key (\<open>reverse=True\<close> reverses the whole key, the count and
  the digraph).
\<close>

theorem get_bigrams_frequency_ranking:
  "\<exists>r. get_bigrams_frequency string 1 True = Inr r \<and> ranked_desc_desc r"
  by (simp add: get_bigrams_frequency_def ranked_sorted_reverse)

text \<open>
  C4 as stated fails: the text of the three symbols U+0430, U+0431, U+0432 has two
  digraphs of count 1, and the ranked output lists the larger one first, so the ties are
  not in ascending order of the key.
\<close>

theorem get_bigrams_frequency_ties_counterexample:
  "get_bigrams_frequency [1072, 1073, 1074] 1 True
     = Inr [([1073, 1074], 1), ([1072, 1073], 1)]
   \<and> \<not> ranked_desc_asc [([1073, 1074], 1), ([1072, 1073], 1)]"
  by (simp add: get_bigrams_frequency_def sorted_reverse_def ranked_desc_asc_def upt_rec
      less_eq_prod_def)

text \<open>
  C9, amended: for every non-empty text, the sum of all counts produced by
  \<open>get_bigrams_frequency(text, step=1)\<close>, sorted or not, equals \<open>len(text) - 1\<close>.
\<close>

theorem get_bigrams_frequency_total:
  "string \<noteq> [] \<Longrightarrow>
   \<exists>r. get_bigrams_frequency string 1 sort_flag = Inr r
       \<and> sum_list (map snd r) = int (length string) - 1"
  by (cases string)
     (simp_all add: get_bigrams_frequency_def Let_def sum_sorted_reverse sum_bigram_loop)

theorem get_bigrams_frequency_total_witness:
  "[1072, 1073, 1072, 1073, 1074] \<noteq> ([] :: pystr)
   \<and> (\<exists>r. get_bigrams_frequency [1072, 1073, 1072, 1073, 1074] 1 True = Inr r
           \<and> sum_list (map snd r) = 4)"
  using get_bigrams_frequency_total [of "[1072, 1073, 1072, 1073, 1074]" True] by simp

text \<open>
  C9 as stated fails at the empty text: the range is empty, no digraph is counted and the
  sum is 0, while \<open>len(text) - 1\<close> is \<open>-1\<close>.
\<close>

theorem get_bigrams_frequency_total_counterexample:
  "get_bigrams_frequency [] 1 True = Inr []
   \<and> sum_list (map snd ([] :: f_dict)) \<noteq> int (length ([] :: pystr)) - 1"
  by (simp add: get_bigrams_frequency_def sorted_reverse_def)

section \<open>Modular arithmetic: the extended Euclidean loop and the inverse\<close>

text \<open>The recursion equation of the loop is applied by hand: as a rewrite rule it would
  unfold without end.\<close>

declare gcd_loop.simps [simp del]

lemma gcd_loop_zero: "gcd_loop b 0 x0 x1 = (b, x0)"
  by (subst gcd_loop.simps) simp

lemma gcd_loop_step:
  "n \<noteq> 0 \<Longrightarrow> gcd_loop b n x0 x1 = gcd_loop n (b mod n) x1 (x0 - (b div n) * x1)"
  by (subst gcd_loop.simps) simp

lemma gcd_loop_fst:
  "0 \<le> n \<Longrightarrow> (n = 0 \<longrightarrow> 0 \<le> b) \<Longrightarrow> fst (gcd_loop b n x0 x1) = gcd b n"
proof (induction b n x0 x1 rule: gcd_loop.induct)
  case (1 b n x0 x1)
  show ?case
  proof (cases "n = 0")
    case True
    with "1.prems" show ?thesis by (simp add: gcd_loop_zero)
  next
    case False
    with "1.prems" have pos: "0 < n" by simp
    then have "0 \<le> b mod n" by simp
    moreover have "b mod n = 0 \<longrightarrow> 0 \<le> n" using pos by simp
    ultimately have "fst (gcd_loop n (b mod n) x1 (x0 - (b div n) * x1)) = gcd n (b mod n)"
      using "1.IH" False by blast
    moreover have "gcd n (b mod n) = gcd b n"
      by (metis gcd.commute gcd_red_int)
    ultimately show ?thesis using False by (simp add: gcd_loop_step)
  qed
qed

lemma gcd_loop_coefficient:
  "N dvd (b - x0 * B) \<Longrightarrow> N dvd (n - x1 * B) \<Longrightarrow>
   N dvd (fst (gcd_loop b n x0 x1) - snd (gcd_loop b n x0 x1) * B)"
proof (induction b n x0 x1 rule: gcd_loop.induct)
  case (1 b n x0 x1)
  show ?case
  proof (cases "n = 0")
    case True
    with "1.prems" show ?thesis by (simp add: gcd_loop_zero)
  next
    case False
    have "b mod n - (x0 - (b div n) * x1) * B = (b - x0 * B) - (b div n) * (n - x1 * B)"
      by (simp add: algebra_simps minus_mult_div_eq_mod [symmetric])
    then have "N dvd (b mod n - (x0 - (b div n) * x1) * B)"
      using "1.prems" by (simp add: dvd_diff)
    with "1.IH" [OF False "1.prems"(2)] False show ?thesis by (simp add: gcd_loop_step)
  qed
qed

lemma gcd_py_correct:
  assumes "0 < m"
  shows "fst (gcd_py a m) = gcd a m" and "m dvd (gcd a m - snd (gcd_py a m) * a)"
proof -
  show g: "fst (gcd_py a m) = gcd a m"
    unfolding gcd_py_def using assms by (simp add: gcd_loop_fst)
  have "m dvd (fst (gcd_loop a m 1 0) - snd (gcd_loop a m 1 0) * a)"
    by (rule gcd_loop_coefficient) simp_all
  then show "m dvd (gcd a m - snd (gcd_py a m) * a)"
    using g by (simp add: gcd_py_def)
qed

lemma get_inverse_coprime:
  assumes "0 < m" and "gcd a m = 1"
  shows "\<exists>v. get_inverse a m = Inr (1, Some v) \<and> 0 \<le> v \<and> v < m \<and> m dvd (a * v - 1)"
proof -
  obtain d x where dx: "gcd_py a m = (d, x)" by (cases "gcd_py a m")
  from gcd_py_correct [OF assms(1), of a] dx assms(2)
  have d: "d = 1" and bez: "m dvd (1 - x * a)" by simp_all
  have "m dvd (x * a - x mod m * a)"
    by (metis dvd_minus_mod dvd_mult2 left_diff_distrib)
  with bez have "m dvd ((1 - x * a) + (x * a - x mod m * a))"
    by (rule dvd_add)
  then have "m dvd (1 - a * (x mod m))" by (simp add: mult.commute)
  then have "m dvd (a * (x mod m) - 1)"
    by (metis dvd_minus_iff minus_diff_eq)
  moreover have "get_inverse a m = Inr (1, Some (x mod m))"
    using dx d assms(1) by (simp add: get_inverse_def)
  ultimately show ?thesis using assms(1) by simp
qed

lemma get_inverse_not_coprime:
  assumes "0 < m" and "gcd a m \<noteq> 1"
  shows "get_inverse a m = Inr (gcd a m, None)"
proof -
  obtain d x where dx: "gcd_py a m = (d, x)" by (cases "gcd_py a m")
  with gcd_py_correct(1) [OF assms(1), of a] have "d = gcd a m" by simp
  with dx assms(2) show ?thesis by (simp add: get_inverse_def)
qed

section \<open>The solutions of the reduced congruence\<close>

lemma bindE_simps [simp]: "bindE (Inl e) f = Inl e" "bindE (Inr v) f = f v"
  by (simp_all add: bindE_def)

lemma reduced_solutions:
  fixes m' d a' b' v :: int
  assumes m': "0 < m'" and d: "0 < d" and inv: "m' dvd (a' * v - 1)"
  defines "x0 \<equiv> (b' * v) mod m'"
  defines "xs \<equiv> map (\<lambda>i. x0 + (i - 1) * m') [1..d]"
  shows "length xs = nat d" and "distinct xs"
    and "set xs = {t. 0 \<le> t \<and> t < d * m' \<and> (d * m') dvd (d * a' * t - d * b')}"
proof -
  show "length xs = nat d" by (simp add: xs_def)
  have "inj_on (\<lambda>i. x0 + (i - 1) * m') (set [1..d])"
    using m' by (auto simp: inj_on_def)
  then show "distinct xs" by (simp add: xs_def distinct_map)
  have x0: "0 \<le> x0" "x0 < m'" using m' by (simp_all add: x0_def)
  have x0_dvd: "m' dvd (b' * v - x0)"
    by (simp add: x0_def dvd_minus_mod)
  have cancel: "(d * m') dvd (d * a' * t - d * b') \<longleftrightarrow> m' dvd (a' * t - b')" for t
  proof -
    have "d * a' * t - d * b' = d * (a' * t - b')" by (simp add: algebra_simps)
    then show ?thesis using d by simp
  qed
  show "set xs = {t. 0 \<le> t \<and> t < d * m' \<and> (d * m') dvd (d * a' * t - d * b')}"
  proof (intro set_eqI iffI)
    fix t assume "t \<in> set xs"
    then obtain i where i: "1 \<le> i" "i \<le> d" and t: "t = x0 + (i - 1) * m'"
      by (auto simp: xs_def)
    have "0 \<le> (i - 1) * m'" using i m' by simp
    then have lo: "0 \<le> t" using x0 t by simp
    have "(i - 1) * m' \<le> (d - 1) * m'" using i m' by (simp add: mult_right_mono)
    with x0 t have "t < m' + (d - 1) * m'" by linarith
    then have hi: "t < d * m'" by (simp add: algebra_simps)
    have eq: "a' * t - b' = b' * (a' * v - 1) - a' * (b' * v - x0) + a' * (i - 1) * m'"
      by (simp add: t algebra_simps)
    have "m' dvd (b' * (a' * v - 1) - a' * (b' * v - x0) + a' * (i - 1) * m')"
      using inv x0_dvd by (simp add: dvd_add dvd_diff)
    then have "m' dvd (a' * t - b')" by (subst eq)
    with lo hi show "t \<in> {t. 0 \<le> t \<and> t < d * m' \<and> (d * m') dvd (d * a' * t - d * b')}"
      by (simp add: cancel)
  next
    fix t assume "t \<in> {t. 0 \<le> t \<and> t < d * m' \<and> (d * m') dvd (d * a' * t - d * b')}"
    then have lo: "0 \<le> t" and hi: "t < d * m'" and dv: "m' dvd (a' * t - b')"
      by (simp_all add: cancel)
    have eq: "t - x0 = v * (a' * t - b') - (a' * v - 1) * t + (b' * v - x0)"
      by (simp add: algebra_simps)
    have "m' dvd (v * (a' * t - b') - (a' * v - 1) * t + (b' * v - x0))"
      using inv dv x0_dvd by (simp add: dvd_add dvd_diff)
    then have "m' dvd (t - x0)" by (subst eq)
    then have "t mod m' = x0 mod m'" by (simp add: mod_eq_dvd_iff)
    then have tm: "t mod m' = x0" using x0 by simp
    define k where "k = t div m'"
    have t_eq: "t = x0 + k * m'"
      using tm by (metis k_def add.commute div_mult_mod_eq)
    have k0: "0 \<le> k" using lo m' by (simp add: k_def pos_imp_zdiv_nonneg_iff)
    have kd: "k < d"
    proof (rule ccontr)
      assume "\<not> k < d"
      then have "d * m' \<le> k * m'" using m' by (simp add: mult_right_mono)
      with t_eq x0 hi show False by linarith
    qed
    have "k + 1 \<in> set [1..d]" using k0 kd by simp
    then have "(\<lambda>i. x0 + (i - 1) * m') (k + 1) \<in> (\<lambda>i. x0 + (i - 1) * m') ` set [1..d]"
      by (rule imageI)
    then show "t \<in> set xs" using t_eq by (simp add: xs_def)
  qed
qed

section \<open>The congruence solver where the float arithmetic is exact\<close>

lemma abs_div_le:
  fixes v d :: int
  assumes "0 < d"
  shows "\<bar>v div d\<bar> \<le> \<bar>v\<bar>"
proof (cases "0 \<le> v")
  case True
  then have "0 \<le> v div d" using assms by (simp add: pos_imp_zdiv_nonneg_iff)
  moreover have "v div d \<le> v div 1" using True assms by (intro zdiv_mono2) simp_all
  ultimately show ?thesis using True by simp
next
  case False
  then have neg: "v < 0" by simp
  then have "v div d < 0" using assms by (simp add: div_neg_pos_less0)
  moreover have "v div 1 \<le> v div d" using neg assms by (intro zdiv_mono2_neg) simp_all
  ultimately show ?thesis using neg by simp
qed

lemma float_exact_no_overflow:
  assumes "float_exact v" and "0 < d"
  shows "\<not> float_overflow (v div d)"
proof -
  have "\<bar>v div d\<bar> \<le> \<bar>v\<bar>" using assms(2) by (rule abs_div_le)
  moreover have "(2::int) ^ 26 < 2 ^ 1024" by simp
  ultimately show ?thesis
    using assms(1) unfolding float_exact_def float_overflow_def by linarith
qed

lemma reduced_branch_solutions:
  assumes m: "0 < m" and ex: "float_exact a" "float_exact b" "float_exact m"
    and dvd: "gcd a m dvd b"
  shows "\<exists>xs. reduced_branch a b m (gcd a m) = Inr (Some xs) \<and> length xs = nat (gcd a m)
           \<and> distinct xs \<and> set xs = {t. 0 \<le> t \<and> t < m \<and> m dvd (a * t - b)}"
proof -
  let ?d = "gcd a m"
  let ?S = "{t. 0 \<le> t \<and> t < m \<and> m dvd (a * t - b)}"
  have d: "0 < ?d" using m by (simp add: gcd_pos_int)
  have dm: "?d * (m div ?d) = m" and da: "?d * (a div ?d) = a" and db: "?d * (b div ?d) = b"
    using dvd by simp_all
  have m': "0 < m div ?d"
    using m d by (simp add: pos_imp_zdiv_pos_iff zdvd_imp_le)
  have no_ov: "\<not> float_overflow (a div ?d)" "\<not> float_overflow (b div ?d)"
    "\<not> float_overflow (m div ?d)"
    using ex d by (simp_all add: float_exact_no_overflow)
  have "coprime (a div ?d) (m div ?d)"
    using m by (intro div_gcd_coprime) simp
  then have "gcd (a div ?d) (m div ?d) = 1" by simp
  from get_inverse_coprime [OF m' this]
  obtain v where v: "get_inverse (a div ?d) (m div ?d) = Inr (1, Some v)"
    and vinv: "m div ?d dvd (a div ?d * v - 1)" by blast
  define xs where "xs = map (\<lambda>i. (b div ?d * v) mod (m div ?d) + (i - 1) * (m div ?d)) [1..?d]"
  from reduced_solutions [OF m' d vinv, of "b div ?d"]
  have props: "length xs = nat ?d" "distinct xs" "set xs = ?S"
    unfolding xs_def by (simp_all only: dm da db mult.assoc [symmetric])
  have "reduced_branch a b m ?d = Inr (Some xs)"
    unfolding reduced_branch_def using no_ov ex v by (simp add: Let_def xs_def)
  with props show ?thesis by blast
qed

lemma solve_linear_comparison_solvable:
  assumes m: "0 < m" and ex: "float_exact a" "float_exact b" "float_exact m"
    and dvd: "gcd a m dvd b"
  shows "\<exists>xs. solve_linear_comparison a b m = Inr (Some xs) \<and> length xs = nat (gcd a m)
           \<and> distinct xs \<and> set xs = {t. 0 \<le> t \<and> t < m \<and> m dvd (a * t - b)}"
proof -
  let ?d = "gcd a m"
  let ?S = "{t. 0 \<le> t \<and> t < m \<and> m dvd (a * t - b)}"
  have d: "0 < ?d" using m by (simp add: gcd_pos_int)
  have bd: "b mod ?d = 0" using dvd by simp
  show ?thesis
  proof (cases "?d = 1")
    case True
    from get_inverse_coprime [OF m True] obtain w where
      w: "get_inverse a m = Inr (1, Some w)" "0 \<le> w" "w < m" "m dvd (a * w - 1)" by blast
    show ?thesis
    proof (cases "w = 0")
      case True
      have "solve_linear_comparison a b m = reduced_branch a b m 1"
        unfolding solve_linear_comparison_def using w(1) True by simp
      with reduced_branch_solutions [OF m ex dvd] \<open>?d = 1\<close> show ?thesis by simp
    next
      case False
      have one: "solve_linear_comparison a b m = Inr (Some [(w * b) mod m])"
        unfolding solve_linear_comparison_def using w(1) False by simp
      have "(0::int) < 1" by simp
      from reduced_solutions(3) [OF m this w(4), of b]
      have "set [(b * w) mod m] = ?S" by simp
      then have "set [(w * b) mod m] = ?S" by (simp add: mult.commute)
      with one True show ?thesis by auto
    qed
  next
    case False
    then have "get_inverse a m = Inr (?d, None)"
      using m by (simp add: get_inverse_not_coprime)
    then have "solve_linear_comparison a b m = reduced_branch a b m ?d"
      unfolding solve_linear_comparison_def using m bd by simp
    with reduced_branch_solutions [OF m ex dvd] show ?thesis by simp
  qed
qed

lemma solve_linear_comparison_unsolvable:
  assumes m: "0 < m" and dvd: "\<not> gcd a m dvd b"
  shows "solve_linear_comparison a b m = Inr None"
proof -
  have d: "0 < gcd a m" using m by (simp add: gcd_pos_int)
  have "gcd a m \<noteq> 1" using dvd by auto
  then have "get_inverse a m = Inr (gcd a m, None)"
    using m by (simp add: get_inverse_not_coprime)
  moreover have "b mod gcd a m \<noteq> 0" using dvd by (simp add: dvd_eq_mod_eq_0)
  ultimately show ?thesis
    unfolding solve_linear_comparison_def using m by simp
qed

text \<open>
  C3: for all integers \<open>a\<close>, \<open>b\<close> and every modulus \<open>m > 0\<close>, every \<open>x\<close> returned by
  \<open>solve_linear_comparison(a, b, m)\<close> satisfies \<open>(a * x - b) mod m = 0\<close>, the list has
  exactly \<open>gcd(a, m)\<close> entries when \<open>gcd(a, m)\<close> divides \<open>b\<close>, and the result is \<open>None\<close>
  otherwise. The lemmas \<open>solve_linear_comparison_solvable\<close> and
  \<open>solve_linear_comparison_unsolvable\<close> above give this where the float arithmetic of the
  reduced branch is exact. It does not hold for all integers: for \<open>a = 2 ^ 1025\<close>,
  \<open>b = 0\<close>, \<open>m = 2\<close> the gcd is 2 and divides \<open>b\<close>, so two solutions are due, but the
  true division \<open>a / d\<close> overflows the double range and raises OverflowError.
\<close>

theorem solve_linear_comparison_overflow:
  "solve_linear_comparison (2 ^ 1025) 0 2 = Inl OverflowError"
proof -
  have "gcd_py (2 ^ 1025) 2 = (2, 0)"
    by (simp add: gcd_py_def gcd_loop_step gcd_loop_zero)
  then have "get_inverse (2 ^ 1025) 2 = Inr (2, None)"
    by (simp add: get_inverse_def)
  moreover have "float_overflow ((2 ^ 1025) div 2)"
    by (simp add: float_overflow_def)
  ultimately show ?thesis
    by (simp add: solve_linear_comparison_def reduced_branch_def)
qed

section \<open>The degenerate congruence\<close>

lemma map_pred_upto: "map (\<lambda>i. i - 1) [1..m] = [0..m - 1]"
  by (rule nth_equalityI) simp_all

lemma reduced_branch_degenerate:
  assumes m: "0 < m" and ex: "float_exact a" "float_exact b" "float_exact m"
  shows "reduced_branch a b m m = Inr (Some [0..m - 1])"
proof -
  have no_ov: "\<not> float_overflow (a div m)" "\<not> float_overflow (b div m)"
    "\<not> float_overflow (m div m)"
    using ex m by (simp_all only: float_exact_no_overflow not_False_eq_True)
  have "gcd (a div m) 1 = 1" by simp
  from get_inverse_coprime [OF _ this]
  obtain v where v: "get_inverse (a div m) 1 = Inr (1, Some v)" by auto
  have "reduced_branch a b m m = Inr (Some (map (\<lambda>i. i - 1) [1..m]))"
    unfolding reduced_branch_def using no_ov ex v m by (simp add: Let_def)
  then show ?thesis by (simp only: map_pred_upto)
qed

text \<open>
  C7, amended: for \<open>m > 0\<close> and \<open>a\<close>, \<open>b\<close>, \<open>m\<close> in the range where the float arithmetic is
  exact (magnitudes below \<open>2 ^ 26\<close>), when \<open>a \<equiv> 0 (mod m)\<close> the solver has no special case
  and raises nothing: it returns \<open>None\<close> when \<open>m\<close> does not divide \<open>b\<close>, and when \<open>m\<close>
  divides \<open>b\<close> it returns all \<open>m\<close> residues \<open>0, ..., m - 1\<close> as candidates.
\<close>

theorem solve_linear_comparison_degenerate:
  assumes m: "0 < m" and ex: "float_exact a" "float_exact b" "float_exact m"
    and a: "a mod m = 0"
  shows "solve_linear_comparison a b m
         = (if b mod m = 0 then Inr (Some [0..m - 1]) else Inr None)"
proof -
  have g: "gcd a m = m" using a m by (simp add: gcd_proj2_if_dvd_int mod_eq_0_iff_dvd)
  show ?thesis
  proof (cases "b mod m = 0")
    case False
    then have "\<not> gcd a m dvd b" by (simp add: g dvd_eq_mod_eq_0)
    from solve_linear_comparison_unsolvable [OF m this] False show ?thesis by simp
  next
    case True
    have "solve_linear_comparison a b m = reduced_branch a b m m"
    proof (cases "m = 1")
      case True
      then have "gcd a m = 1" by simp
      from get_inverse_coprime [OF m this] True
      have "get_inverse a m = Inr (1, Some 0)" by auto
      then show ?thesis
        unfolding solve_linear_comparison_def using True by simp
    next
      case False
      then have "get_inverse a m = Inr (m, None)"
        using m g get_inverse_not_coprime [of m a] by simp
      then show ?thesis
        unfolding solve_linear_comparison_def using m True by simp
    qed
    with reduced_branch_degenerate [OF m ex] True show ?thesis by simp
  qed
qed

theorem solve_linear_comparison_degenerate_witness:
  "(0::int) < 961 \<and> float_exact 1922 \<and> float_exact 0 \<and> float_exact 961
   \<and> (1922::int) mod 961 = 0
   \<and> solve_linear_comparison 1922 0 961 = Inr (Some [0..960])
   \<and> solve_linear_comparison 1922 5 961 = Inr None"
proof -
  have h: "(0::int) < 961" "float_exact 1922" "float_exact 0" "float_exact 5"
    "float_exact 961" "(1922::int) mod 961 = 0"
    by (simp_all add: float_exact_def)
  from solve_linear_comparison_degenerate [OF h(1) h(2) h(3) h(5) h(6)]
       solve_linear_comparison_degenerate [OF h(1) h(2) h(4) h(5) h(6)] h
  show ?thesis by simp
qed

text \<open>
  C7 as stated fails: for \<open>a = 0\<close>, \<open>b = 0\<close>, \<open>m = 2\<close> (so \<open>a \<equiv> 0 (mod m)\<close> and
  \<open>gcd(a, m) = m\<close>) the solver hands both residues to its caller as candidates.
\<close>

theorem solve_linear_comparison_degenerate_counterexample:
  "solve_linear_comparison 0 0 2 = Inr (Some [0, 1])"
  by (simp add: solve_linear_comparison_def reduced_branch_def get_inverse_def gcd_py_def
      gcd_loop_step gcd_loop_zero float_exact_def float_overflow_def upto_rec1 Let_def)

section \<open>The alphabet and indexing\<close>

lemma length_ALPHABET: "length ALPHABET = 31"
  by (simp add: ALPHABET_def)

lemma distinct_ALPHABET: "distinct ALPHABET"
  by (simp add: ALPHABET_def)

lemma modulus_eq: "modulus = 961"
  by (simp add: modulus_def length_ALPHABET)

lemma index_py_error: "index_py xs c = Inl e \<Longrightarrow> e = ValueError"
  by (induction xs arbitrary: e) (auto split: if_splits sum.splits)

lemma index_py_absent: "c \<notin> set xs \<Longrightarrow> index_py xs c = Inl ValueError"
  by (induction xs) auto

lemma index_py_present:
  "c \<in> set xs \<Longrightarrow>
   \<exists>i. index_py xs c = Inr i \<and> 0 \<le> i \<and> i < int (length xs) \<and> xs ! nat i = c"
proof (induction xs)
  case Nil
  then show ?case by simp
next
  case (Cons x xs)
  show ?case
  proof (cases "x = c")
    case True
    then show ?thesis by simp
  next
    case False
    with Cons.prems have "c \<in> set xs" by simp
    from Cons.IH [OF this] obtain i where
      i: "index_py xs c = Inr i" "0 \<le> i" "i < int (length xs)" "xs ! nat i = c" by blast
    then have "(x # xs) ! nat (i + 1) = c" by (simp add: nat_add_distrib)
    with i False show ?thesis by simp
  qed
qed

lemma index_py_Inr:
  "index_py xs c = Inr i \<Longrightarrow> 0 \<le> i \<and> i < int (length xs) \<and> xs ! nat i = c"
  using index_py_present [of c xs] index_py_absent [of c xs] by (cases "c \<in> set xs") auto

lemma index_py_nth:
  "distinct xs \<Longrightarrow> k < length xs \<Longrightarrow> index_py xs (xs ! k) = Inr (int k)"
proof (induction xs arbitrary: k)
  case Nil
  then show ?case by simp
next
  case (Cons x xs)
  show ?case
  proof (cases k)
    case 0
    then show ?thesis by simp
  next
    case (Suc j)
    with Cons.prems have "j < length xs" "x \<noteq> xs ! j" by auto
    with Cons Suc show ?thesis by simp
  qed
qed

lemma getitem_in_range:
  "0 \<le> i \<Longrightarrow> i < int (length xs) \<Longrightarrow> getitem xs i = Inr (xs ! nat i)"
  by (simp add: getitem_def)

lemma getitem_error: "getitem xs i = Inl e \<Longrightarrow> e = IndexError"
  by (simp add: getitem_def split: if_splits)

text \<open>Numbers of digraphs: quotient and remainder by the alphabet size.\<close>

lemma digraph_number_bounds:
  fixes i0 i1 :: int
  assumes "0 \<le> i0" "i0 < 31" "0 \<le> i1" "i1 < 31"
  shows "0 \<le> i0 * 31 + i1" and "i0 * 31 + i1 < 961"
    and "(i0 * 31 + i1) div 31 = i0" and "(i0 * 31 + i1) mod 31 = i1"
  using assms by auto

lemma residue_split:
  fixes x :: int
  assumes "0 \<le> x" "x < 961"
  shows "0 \<le> x div 31" and "x div 31 < 31" and "0 \<le> x mod 31" and "x mod 31 < 31"
    and "x div 31 * 31 + x mod 31 = x"
  using assms by auto

section \<open>Decryption of well-formed strings\<close>

lemma decrypt_loop_step:
  assumes inv: "get_inverse a modulus = Inr (d, Some v)"
    and i0: "index_py ALPHABET c0 = Inr i0" and i1: "index_py ALPHABET c1 = Inr i1"
  shows "decrypt_loop (c0 # c1 # rest) (a, b) acc
         = decrypt_loop rest (a, b)
             (acc @ [ALPHABET ! nat ((v * (i0 * 31 + i1 - b)) mod 961 div 31),
                     ALPHABET ! nat ((v * (i0 * 31 + i1 - b)) mod 961 mod 31)])"
proof -
  let ?x = "(v * (i0 * 31 + i1 - b)) mod 961"
  have x: "0 \<le> ?x" "?x < 961" by simp_all
  have g0: "getitem ALPHABET (?x div 31) = Inr (ALPHABET ! nat (?x div 31))"
    using residue_split(1,2) [OF x] by (simp add: getitem_in_range length_ALPHABET)
  have g1: "getitem ALPHABET (?x mod 31) = Inr (ALPHABET ! nat (?x mod 31))"
    using residue_split(3,4) [OF x] by (simp add: getitem_in_range length_ALPHABET)
  show ?thesis
    using inv i0 i1 g0 g1 by (simp add: modulus_eq length_ALPHABET Let_def)
qed

lemma nth_ALPHABET_mem: "0 \<le> i \<Longrightarrow> i < 31 \<Longrightarrow> ALPHABET ! nat i \<in> set ALPHABET"
  by (simp add: length_ALPHABET)

lemma decrypt_loop_wellformed:
  assumes inv: "get_inverse a modulus = Inr (d, Some v)"
  shows "even (length s) \<Longrightarrow> set s \<subseteq> set ALPHABET \<Longrightarrow>
         \<exists>t. decrypt_loop s (a, b) acc = Inr (acc @ t) \<and> length t = length s
              \<and> set t \<subseteq> set ALPHABET"
proof (induction s arbitrary: acc rule: induct_list012)
  case 1
  then show ?case by simp
next
  case (2 c)
  then show ?case by simp
next
  case (3 c0 c1 rest)
  from "3.prems" have mem: "c0 \<in> set ALPHABET" "c1 \<in> set ALPHABET"
    and rest: "even (length rest)" "set rest \<subseteq> set ALPHABET" by simp_all
  from index_py_present [OF mem(1)] obtain i0 where i0: "index_py ALPHABET c0 = Inr i0"
    by blast
  from index_py_present [OF mem(2)] obtain i1 where i1: "index_py ALPHABET c1 = Inr i1"
    by blast
  let ?x = "(v * (i0 * 31 + i1 - b)) mod 961"
  let ?blk = "[ALPHABET ! nat (?x div 31), ALPHABET ! nat (?x mod 31)]"
  have x: "0 \<le> ?x" "?x < 961" by simp_all
  have blk: "set ?blk \<subseteq> set ALPHABET"
    using residue_split(1-4) [OF x] by (simp add: nth_ALPHABET_mem)
  from "3.IH"(1) [OF rest, of "acc @ ?blk"] obtain t where
    t: "decrypt_loop rest (a, b) (acc @ ?blk) = Inr ((acc @ ?blk) @ t)"
       "length t = length rest" "set t \<subseteq> set ALPHABET" by blast
  have "decrypt_loop (c0 # c1 # rest) (a, b) acc = Inr (acc @ (?blk @ t))"
    using decrypt_loop_step [OF inv i0 i1] t(1) by simp
  moreover have "length (?blk @ t) = length (c0 # c1 # rest)" using t(2) by simp
  moreover have "set (?blk @ t) \<subseteq> set ALPHABET" using blk t(3) by simp
  ultimately show ?case by blast
qed

text \<open>
  C10: for every even-length input string whose symbols are all in the alphabet and every
  key whose first component is invertible modulo \<open>A ^ 2\<close>, \<open>decrypt_from_affinity_sub\<close>
  returns a string of the same length as the input, all of whose symbols are in the
  alphabet.
\<close>

theorem decrypt_from_affinity_sub_preserves:
  assumes "gcd a modulus = 1" and "even (length string)" and "set string \<subseteq> set ALPHABET"
  shows "\<exists>t. decrypt_from_affinity_sub string (a, b) = Inr t \<and> length t = length string
              \<and> set t \<subseteq> set ALPHABET"
proof -
  have "0 < modulus" by (simp add: modulus_eq)
  from get_inverse_coprime [OF this assms(1)] obtain v where
    "get_inverse a modulus = Inr (1, Some v)" by blast
  from decrypt_loop_wellformed [OF this assms(2,3), of b "[]"] show ?thesis
    by (simp add: decrypt_from_affinity_sub_def)
qed

theorem decrypt_from_affinity_sub_preserves_witness:
  "gcd 7 modulus = 1 \<and> even (length [1089, 1090 :: nat])
   \<and> set [1089, 1090] \<subseteq> set ALPHABET
   \<and> (\<exists>t. decrypt_from_affinity_sub [1089, 1090] (7, 3) = Inr t
            \<and> length t = length [1089, 1090 :: nat] \<and> set t \<subseteq> set ALPHABET)"
proof -
  have "gcd (7::int) 961 = 1" by code_simp
  then have g: "gcd 7 modulus = 1" by (simp add: modulus_eq)
  have e: "even (length [1089, 1090 :: nat])" by simp
  have m: "set [1089, 1090] \<subseteq> set ALPHABET" by (simp add: ALPHABET_def)
  from decrypt_from_affinity_sub_preserves [OF g e m, of 3] g e m show ?thesis by blast
qed

section \<open>Encryption followed by decryption\<close>

lemma affine_inverse:
  fixes a b v X :: int
  assumes inv: "961 dvd (a * v - 1)" and X: "0 \<le> X" "X < 961"
  shows "(v * ((a * X + b) mod 961 - b)) mod 961 = X"
proof -
  let ?Y = "(a * X + b) mod 961"
  have "v * (?Y - b) - X = X * (a * v - 1) - v * ((a * X + b) - ?Y)"
    by (simp add: algebra_simps)
  moreover have "961 dvd (X * (a * v - 1) - v * ((a * X + b) - ?Y))"
    using inv by (simp add: dvd_diff dvd_minus_mod)
  ultimately have "961 dvd (v * (?Y - b) - X)" by simp
  then have "(v * (?Y - b)) mod 961 = X mod 961" by (simp add: mod_eq_dvd_iff)
  then show ?thesis using X by simp
qed

lemma roundtrip_loop:
  assumes inv: "get_inverse a modulus = Inr (d, Some v)" and dvd: "961 dvd (a * v - 1)"
  shows "even (length t) \<Longrightarrow> set t \<subseteq> set ALPHABET \<Longrightarrow>
         \<exists>c. encrypt t (a, b) = Some c \<and> (\<forall>acc. decrypt_loop c (a, b) acc = Inr (acc @ t))"
proof (induction t rule: induct_list012)
  case 1
  then show ?case by simp
next
  case (2 c)
  then show ?case by simp
next
  case (3 c0 c1 rest)
  from "3.prems" have mem: "c0 \<in> set ALPHABET" "c1 \<in> set ALPHABET"
    and rest: "even (length rest)" "set rest \<subseteq> set ALPHABET" by simp_all
  from index_py_present [OF mem(1)] obtain i0 where
    i0: "index_py ALPHABET c0 = Inr i0" "0 \<le> i0" "i0 < 31" "ALPHABET ! nat i0 = c0"
    by (auto simp: length_ALPHABET)
  from index_py_present [OF mem(2)] obtain i1 where
    i1: "index_py ALPHABET c1 = Inr i1" "0 \<le> i1" "i1 < 31" "ALPHABET ! nat i1 = c1"
    by (auto simp: length_ALPHABET)
  from "3.IH"(1) [OF rest] obtain cr where
    cr: "encrypt rest (a, b) = Some cr" "\<And>acc. decrypt_loop cr (a, b) acc = Inr (acc @ rest)"
    by blast
  let ?X = "i0 * 31 + i1"
  let ?Y = "(a * ?X + b) mod 961"
  let ?e0 = "ALPHABET ! nat (?Y div 31)" and ?e1 = "ALPHABET ! nat (?Y mod 31)"
  have X: "0 \<le> ?X" "?X < 961" "?X div 31 = i0" "?X mod 31 = i1"
    using digraph_number_bounds [OF i0(2,3) i1(2,3)] by simp_all
  have Y: "0 \<le> ?Y" "?Y < 961" by simp_all
  have enc: "encrypt (c0 # c1 # rest) (a, b) = Some (?e0 # ?e1 # cr)"
    using i0(1) i1(1) cr(1) by (simp add: modulus_eq length_ALPHABET Let_def)
  have j0: "index_py ALPHABET ?e0 = Inr (?Y div 31)"
    using index_py_nth [OF distinct_ALPHABET, of "nat (?Y div 31)"] residue_split(1,2) [OF Y]
    by (simp add: length_ALPHABET)
  have j1: "index_py ALPHABET ?e1 = Inr (?Y mod 31)"
    using index_py_nth [OF distinct_ALPHABET, of "nat (?Y mod 31)"] residue_split(3,4) [OF Y]
    by (simp add: length_ALPHABET)
  have recover: "(v * (?Y div 31 * 31 + ?Y mod 31 - b)) mod 961 = ?X"
    using affine_inverse [OF dvd X(1,2), of b] by (simp only: residue_split(5) [OF Y])
  have "decrypt_loop (?e0 # ?e1 # cr) (a, b) acc = Inr (acc @ c0 # c1 # rest)" for acc
    using decrypt_loop_step [OF inv j0 j1, of cr b acc] cr(2) [of "acc @ [c0, c1]"]
    by (simp only: recover X(3,4) i0(4) i1(4)) simp
  with enc show ?case by blast
qed

text \<open>
  C1: for every key \<open>(a, b)\<close> with \<open>gcd(a, A ^ 2) = 1\<close> and every text of even length
  whose symbols are all in the alphabet, the encryption of the text under that key exists
  and \<open>decrypt_from_affinity_sub\<close> of it under the same key returns the original text.
\<close>

theorem decrypt_encrypt_roundtrip:
  assumes "gcd a modulus = 1" and "even (length plain)" and "set plain \<subseteq> set ALPHABET"
  shows "\<exists>c. encrypt plain (a, b) = Some c \<and> decrypt_from_affinity_sub c (a, b) = Inr plain"
proof -
  have "0 < modulus" by (simp add: modulus_eq)
  from get_inverse_coprime [OF this assms(1)] obtain v where
    v: "get_inverse a modulus = Inr (1, Some v)" "modulus dvd (a * v - 1)" by blast
  from v(2) have "961 dvd (a * v - 1)" by (simp add: modulus_eq)
  from roundtrip_loop [OF v(1) this assms(2,3), of b] show ?thesis
    by (auto simp: decrypt_from_affinity_sub_def)
qed

theorem decrypt_encrypt_roundtrip_witness:
  "gcd 7 modulus = 1 \<and> even (length [1089, 1090, 1085, 1086 :: nat])
   \<and> set [1089, 1090, 1085, 1086] \<subseteq> set ALPHABET
   \<and> (\<exists>c. encrypt [1089, 1090, 1085, 1086] (7, 3) = Some c
            \<and> decrypt_from_affinity_sub c (7, 3) = Inr [1089, 1090, 1085, 1086])"
proof -
  have "gcd (7::int) 961 = 1" by code_simp
  then have g: "gcd 7 modulus = 1" by (simp add: modulus_eq)
  have e: "even (length [1089, 1090, 1085, 1086 :: nat])" by simp
  have m: "set [1089, 1090, 1085, 1086] \<subseteq> set ALPHABET" by (simp add: ALPHABET_def)
  from decrypt_encrypt_roundtrip [OF g e m, of 3] g e m show ?thesis by blast
qed

section \<open>Key derivation\<close>

lemma bindE_Inr_iff: "bindE r f = Inr y \<longleftrightarrow> (\<exists>v. r = Inr v \<and> f v = Inr y)"
  by (cases r) simp_all

lemma bindE_Inl_iff: "bindE r f = Inl e \<longleftrightarrow> r = Inl e \<or> (\<exists>v. r = Inr v \<and> f v = Inl e)"
  by (cases r) simp_all

lemma mapE_total: "(\<And>x. x \<in> set xs \<Longrightarrow> f x = Inr (g x)) \<Longrightarrow> mapE f xs = Inr (map g xs)"
  by (induction xs) simp_all

lemma mapE_Inr_set: "mapE f xs = Inr ys \<Longrightarrow> y \<in> set ys \<Longrightarrow> \<exists>x\<in>set xs. f x = Inr y"
  by (induction xs arbitrary: ys) (auto split: sum.splits)

lemma mapE_Inl: "mapE f xs = Inl e \<Longrightarrow> \<exists>x\<in>set xs. f x = Inl e"
  by (induction xs) (auto split: sum.splits)

lemma get_inverse_total: "0 < m \<Longrightarrow> \<exists>d r. get_inverse a m = Inr (d, r)"
  using get_inverse_coprime [of m a] get_inverse_not_coprime [of m a] by (cases "gcd a m = 1") auto

lemma get_inverse_Some:
  assumes "0 < m" and "get_inverse t m = Inr (d, Some a)"
  shows "d = 1" and "0 \<le> a" and "a < m" and "m dvd (t * a - 1)"
proof -
  have g: "gcd t m = 1"
    using assms get_inverse_not_coprime [of m t] by (cases "gcd t m = 1") auto
  from get_inverse_coprime [OF assms(1) g] assms(2)
  show "d = 1" and "0 \<le> a" and "a < m" and "m dvd (t * a - 1)" by auto
qed

lemma inverse_coprime:
  fixes a t m :: int
  assumes "m dvd (t * a - 1)"
  shows "gcd a m = 1"
proof -
  have "gcd a m dvd t * a" by simp
  moreover have "gcd a m dvd (t * a - 1)" using assms by (meson dvd_trans gcd_dvd2)
  ultimately have "gcd a m dvd (t * a - (t * a - 1))" by (rule dvd_diff)
  then show ?thesis by simp
qed

text \<open>A value that \<open>get_inverse\<close> returns as an inverse is itself invertible.\<close>

lemma get_inverse_of_inverse:
  assumes "0 < m" and "get_inverse t m = Inr (d, Some a)"
  shows "\<exists>v. get_inverse a m = Inr (1, Some v)"
proof -
  from get_inverse_Some(4) [OF assms] have "gcd a m = 1" by (rule inverse_coprime)
  from get_inverse_coprime [OF assms(1) this] show ?thesis by blast
qed

lemma get_key1_member:
  assumes "get_key1 x1 x2 y1 y2 = Inr (Some key_1)" and "a \<in> set key_1"
  shows "\<exists>t d. get_inverse t modulus = Inr (d, Some a)"
proof -
  from assms(1) obtain rs invs where
    invs: "mapE (\<lambda>i. get_inverse i modulus) rs = Inr invs"
    and key_1: "key_1 = map the (filter (\<lambda>x. x \<noteq> None) (map snd invs))"
    unfolding get_key1_def by (auto simp: bindE_Inr_iff split: option.splits)
  from assms(2) key_1 obtain d where "(d, Some a) \<in> set invs" by auto
  from mapE_Inr_set [OF invs this] show ?thesis by blast
qed

lemma decrypt_loop_error:
  assumes inv: "get_inverse a modulus = Inr (d, Some v)"
  shows "decrypt_loop s (a, b) acc = Inl e \<Longrightarrow> e = ValueError \<or> e = IndexError"
proof (induction s arbitrary: acc rule: induct_list012)
  case 1
  then show ?case by simp
next
  case (2 c)
  then show ?case by (auto split: sum.splits dest: index_py_error)
next
  case (3 c0 c1 rest)
  show ?case
  proof (cases "index_py ALPHABET c0")
    case (Inl e0)
    with "3.prems" show ?thesis by (auto dest: index_py_error)
  next
    case i0: (Inr i0)
    show ?thesis
    proof (cases "index_py ALPHABET c1")
      case (Inl e1)
      with "3.prems" i0 show ?thesis by (auto dest: index_py_error)
    next
      case i1: (Inr i1)
      from "3.prems" show ?thesis
        unfolding decrypt_loop_step [OF inv i0 i1] by (rule "3.IH"(1))
    qed
  qed
qed

text \<open>
  C5: every \<open>a\<close>-value returned by \<open>get_key1\<close> is invertible modulo \<open>A ^ 2\<close>: the
  modular-inverse lookup of \<open>decrypt_from_affinity_sub\<close> succeeds for it, and decryption
  under a key \<open>(a, b)\<close> with such an \<open>a\<close> (the keys \<open>gnc_keys\<close> builds, \<open>b\<close> from
  \<open>get_key2\<close>) never takes the failure branch of a missing inverse (the TypeError of
  \<open>None * ...\<close>), whatever the string and \<open>b\<close>.
\<close>

theorem get_key1_invertible:
  assumes "get_key1 x1 x2 y1 y2 = Inr (Some key_1)" and "a \<in> set key_1"
  shows "(\<exists>v. get_inverse a modulus = Inr (1, Some v))
         \<and> decrypt_from_affinity_sub string (a, b) \<noteq> Inl TypeError"
proof -
  have m: "0 < modulus" by (simp add: modulus_eq)
  from get_key1_member [OF assms] obtain t d where "get_inverse t modulus = Inr (d, Some a)"
    by blast
  from get_inverse_of_inverse [OF m this] obtain v where
    v: "get_inverse a modulus = Inr (1, Some v)" by blast
  from decrypt_loop_error [OF v, of string b "[]" TypeError]
  have "decrypt_from_affinity_sub string (a, b) \<noteq> Inl TypeError"
    by (auto simp: decrypt_from_affinity_sub_def)
  with v show ?thesis by blast
qed

theorem get_key1_invertible_witness:
  "get_key1 [1089, 1090] [1085, 1086] [1103, 1077] [1073, 1080] = Inr (Some [7])
   \<and> 7 \<in> set [7 :: int]
   \<and> (\<exists>v. get_inverse 7 modulus = Inr (1, Some v))
   \<and> decrypt_from_affinity_sub [1103, 1077] (7, 3) \<noteq> Inl TypeError"
proof -
  have k: "get_key1 [1089, 1090] [1085, 1086] [1103, 1077] [1073, 1080] = Inr (Some [7])"
    by code_simp
  have m: "7 \<in> set [7 :: int]" by simp
  from get_key1_invertible [OF k m, of "[1103, 1077]" 3] k m show ?thesis by blast
qed

lemma bigram_number_pair:
  assumes "index_py ALPHABET c0 = Inr i0" and "index_py ALPHABET c1 = Inr i1"
  shows "bigram_number (c0 # c1 # rest) = Inr (i0 * 31 + i1)"
  using assms by (simp add: bigram_number_def getitem_def length_ALPHABET)

text \<open>A digraph over the alphabet, its number, and the number of its encryption.\<close>

lemma encrypt_digraph:
  assumes "length x = 2" and "set x \<subseteq> set ALPHABET"
  shows "\<exists>X y. bigram_number x = Inr X \<and> 0 \<le> X \<and> X < 961 \<and> encrypt x (a, b) = Some y
           \<and> bigram_number y = Inr ((a * X + b) mod 961)"
proof -
  from assms(1) obtain c0 c1 where x: "x = [c0, c1]"
    by (cases x; cases "tl x") auto
  with assms(2) have mem: "c0 \<in> set ALPHABET" "c1 \<in> set ALPHABET" by simp_all
  from index_py_present [OF mem(1)] obtain i0 where
    i0: "index_py ALPHABET c0 = Inr i0" "0 \<le> i0" "i0 < 31"
    by (auto simp: length_ALPHABET)
  from index_py_present [OF mem(2)] obtain i1 where
    i1: "index_py ALPHABET c1 = Inr i1" "0 \<le> i1" "i1 < 31"
    by (auto simp: length_ALPHABET)
  let ?X = "i0 * 31 + i1"
  let ?Y = "(a * ?X + b) mod 961"
  let ?e0 = "ALPHABET ! nat (?Y div 31)" and ?e1 = "ALPHABET ! nat (?Y mod 31)"
  have X: "0 \<le> ?X" "?X < 961"
    using digraph_number_bounds(1,2) [OF i0(2,3) i1(2,3)] by simp_all
  have Y: "0 \<le> ?Y" "?Y < 961" by simp_all
  have num: "bigram_number x = Inr ?X"
    unfolding x using i0(1) i1(1) by (rule bigram_number_pair)
  have enc: "encrypt x (a, b) = Some [?e0, ?e1]"
    using i0(1) i1(1) by (simp add: x modulus_eq length_ALPHABET Let_def)
  have j0: "index_py ALPHABET ?e0 = Inr (?Y div 31)"
    using index_py_nth [OF distinct_ALPHABET, of "nat (?Y div 31)"] residue_split(1,2) [OF Y]
    by (simp add: length_ALPHABET)
  have j1: "index_py ALPHABET ?e1 = Inr (?Y mod 31)"
    using index_py_nth [OF distinct_ALPHABET, of "nat (?Y mod 31)"] residue_split(3,4) [OF Y]
    by (simp add: length_ALPHABET)
  have "bigram_number [?e0, ?e1] = Inr (?Y div 31 * 31 + ?Y mod 31)"
    using j0 j1 by (rule bigram_number_pair)
  then have "bigram_number [?e0, ?e1] = Inr ?Y"
    by (simp only: residue_split(5) [OF Y])
  with num X enc show ?thesis by blast
qed

lemma float_exact_difference:
  fixes X1 X2 :: int
  assumes "0 \<le> X1" "X1 < 961" "0 \<le> X2" "X2 < 961"
  shows "float_exact (X1 - X2)"
  using assms by (simp add: float_exact_def)

lemma float_exact_961: "float_exact 961"
  by (simp add: float_exact_def)

text \<open>What \<open>get_key1\<close> returns once the four digraphs have numbers.\<close>

lemma get_key1_numbers:
  assumes "bigram_number x1 = Inr X1" "bigram_number x2 = Inr X2"
    "bigram_number y1 = Inr Y1" "bigram_number y2 = Inr Y2"
    and "solve_linear_comparison (Y1 - Y2) (X1 - X2) 961 = Inr (Some rs)"
  shows "get_key1 x1 x2 y1 y2
         = Inr (Some (map the (filter (\<lambda>x. x \<noteq> None)
                  (map snd (map (\<lambda>t. projr (get_inverse t 961)) rs)))))"
proof -
  have "mapE (\<lambda>i. get_inverse i 961) rs = Inr (map (\<lambda>t. projr (get_inverse t 961)) rs)"
  proof (rule mapE_total)
    fix t
    from get_inverse_total [of 961 t] show "get_inverse t 961 = Inr (projr (get_inverse t 961))"
      by auto
  qed
  with assms show ?thesis by (simp add: get_key1_def modulus_eq)
qed

text \<open>
  C2: for every key \<open>(a, b)\<close> with \<open>gcd(a, A ^ 2) = 1\<close> and every two plaintext digraphs
  over the alphabet, with the two ciphertext digraphs obtained by encrypting them under
  \<open>(a, b)\<close>, \<open>get_key1\<close> applied to the two pairs returns a list and \<open>a\<close> appears in it.
  A key component is an integer modulo \<open>A ^ 2\<close>: the list holds its residue
  \<open>a mod A ^ 2\<close>, which is \<open>a\<close> itself for \<open>0 \<le> a < A ^ 2\<close>.
\<close>

theorem get_key1_consistent:
  assumes cop: "gcd a modulus = 1"
    and x1: "length x1 = 2" "set x1 \<subseteq> set ALPHABET"
    and x2: "length x2 = 2" "set x2 \<subseteq> set ALPHABET"
  shows "\<exists>y1 y2 key_1. encrypt x1 (a, b) = Some y1 \<and> encrypt x2 (a, b) = Some y2
           \<and> get_key1 x1 x2 y1 y2 = Inr (Some key_1) \<and> a mod modulus \<in> set key_1"
proof -
  from encrypt_digraph [OF x1, of a b] obtain X1 y1 where
    X1: "bigram_number x1 = Inr X1" "0 \<le> X1" "X1 < 961" "encrypt x1 (a, b) = Some y1"
      "bigram_number y1 = Inr ((a * X1 + b) mod 961)" by blast
  from encrypt_digraph [OF x2, of a b] obtain X2 y2 where
    X2: "bigram_number x2 = Inr X2" "0 \<le> X2" "X2 < 961" "encrypt x2 (a, b) = Some y2"
      "bigram_number y2 = Inr ((a * X2 + b) mod 961)" by blast
  let ?Y1 = "(a * X1 + b) mod 961" and ?Y2 = "(a * X2 + b) mod 961"
  have m: "(0::int) < 961" by simp
  from cop have cop': "gcd a 961 = 1" by (simp add: modulus_eq)
  from get_inverse_coprime [OF m cop'] obtain v where
    v: "get_inverse a 961 = Inr (1, Some v)" "0 \<le> v" "v < 961" "961 dvd (a * v - 1)"
    by blast
  have eq: "(?Y1 - ?Y2) * v - (X1 - X2)
        = (X1 - X2) * (a * v - 1) - v * ((a * X1 + b) - ?Y1) + v * ((a * X2 + b) - ?Y2)"
    by (simp add: algebra_simps)
  have "961 dvd ((X1 - X2) * (a * v - 1) - v * ((a * X1 + b) - ?Y1) + v * ((a * X2 + b) - ?Y2))"
    using v(4) by (simp add: dvd_add dvd_diff dvd_minus_mod)
  then have sol: "961 dvd ((?Y1 - ?Y2) * v - (X1 - X2))" by (subst eq)
  let ?g = "gcd (?Y1 - ?Y2) 961"
  have "?g dvd (?Y1 - ?Y2) * v" by simp
  moreover have "?g dvd ((?Y1 - ?Y2) * v - (X1 - X2))"
    using sol by (meson dvd_trans gcd_dvd2)
  ultimately have "?g dvd ((?Y1 - ?Y2) * v - ((?Y1 - ?Y2) * v - (X1 - X2)))"
    by (rule dvd_diff)
  then have gd: "?g dvd (X1 - X2)" by simp
  have exY: "float_exact (?Y1 - ?Y2)" by (rule float_exact_difference) simp_all
  have exX: "float_exact (X1 - X2)" using X1(2,3) X2(2,3) by (rule float_exact_difference)
  from solve_linear_comparison_solvable [OF m exY exX float_exact_961 gd] obtain rs where
    rs: "solve_linear_comparison (?Y1 - ?Y2) (X1 - X2) 961 = Inr (Some rs)"
      "set rs = {t. 0 \<le> t \<and> t < 961 \<and> 961 dvd ((?Y1 - ?Y2) * t - (X1 - X2))}" by blast
  have vrs: "v \<in> set rs" using rs(2) v(2,3) sol by simp
  have "gcd v 961 = 1"
    using v(4) by (intro inverse_coprime [of 961 a v]) 
  from get_inverse_coprime [OF m this] obtain w where
    w: "get_inverse v 961 = Inr (1, Some w)" "0 \<le> w" "w < 961" "961 dvd (v * w - 1)"
    by blast
  have eqw: "w - a = a * (v * w - 1) - w * (a * v - 1)" by (simp add: algebra_simps)
  have "961 dvd (a * (v * w - 1) - w * (a * v - 1))"
    using v(4) w(4) by (simp add: dvd_diff)
  then have "961 dvd (w - a)" by (subst eqw)
  then have "w mod 961 = a mod 961" by (simp add: mod_eq_dvd_iff)
  then have wa: "w = a mod modulus" using w(2,3) by (simp add: modulus_eq)
  let ?key_1 = "map the (filter (\<lambda>x. x \<noteq> None)
                  (map snd (map (\<lambda>t. projr (get_inverse t 961)) rs)))"
  have key: "get_key1 x1 x2 y1 y2 = Inr (Some ?key_1)"
    using X1(1) X2(1) X1(5) X2(5) rs(1) by (rule get_key1_numbers)
  have "Some w \<in> set (filter (\<lambda>x. x \<noteq> None) (map snd (map (\<lambda>t. projr (get_inverse t 961)) rs)))"
    using vrs w(1) by (force simp: image_iff)
  then have "the (Some w) \<in> set ?key_1" unfolding set_map by (rule imageI)
  then have "a mod modulus \<in> set ?key_1" by (simp add: wa)
  with X1(4) X2(4) key show ?thesis by blast
qed

theorem get_key1_consistent_witness:
  "gcd 7 modulus = 1 \<and> length [1089, 1090 :: nat] = 2 \<and> set [1089, 1090] \<subseteq> set ALPHABET
   \<and> length [1085, 1086 :: nat] = 2 \<and> set [1085, 1086] \<subseteq> set ALPHABET
   \<and> (\<exists>y1 y2 key_1. encrypt [1089, 1090] (7, 3) = Some y1
         \<and> encrypt [1085, 1086] (7, 3) = Some y2
         \<and> get_key1 [1089, 1090] [1085, 1086] y1 y2 = Inr (Some key_1) \<and> 7 \<in> set key_1)"
proof -
  have "gcd (7::int) 961 = 1" by code_simp
  then have g: "gcd 7 modulus = 1" by (simp add: modulus_eq)
  have l1: "length [1089, 1090 :: nat] = 2" and l2: "length [1085, 1086 :: nat] = 2"
    by simp_all
  have m1: "set [1089, 1090] \<subseteq> set ALPHABET" and m2: "set [1085, 1086] \<subseteq> set ALPHABET"
    by (simp_all add: ALPHABET_def)
  have r: "7 mod modulus = 7" by (simp add: modulus_eq)
  from get_key1_consistent [OF g l1 m1 l2 m2, of 3] g l1 l2 m1 m2 show ?thesis
    unfolding r by blast
qed

section \<open>The search is a first-match search\<close>

lemma spec_first_match_append:
  "spec_first_match check (xs @ ys)
   = (case spec_first_match check xs of Inr None \<Rightarrow> spec_first_match check ys | r \<Rightarrow> r)"
  by (induction check xs rule: spec_first_match.induct) simp_all

lemma solution_loop_first_match:
  "solution_loop check string i0 c key_1
   = spec_first_match check (map (spec_candidate string i0 c) key_1)"
proof (induction key_1)
  case Nil
  then show ?case by simp
next
  case (Cons solution rest)
  show ?case
  proof (cases "get_key2 i0 c solution")
    case (Inl e)
    then show ?thesis by (simp add: spec_candidate_def)
  next
    case k2: (Inr k2)
    show ?thesis
    proof (cases "decrypt_from_affinity_sub string (solution, k2)")
      case (Inl e)
      with k2 show ?thesis by (simp add: spec_candidate_def)
    next
      case (Inr d_text)
      with k2 Cons.IH show ?thesis by (simp add: spec_candidate_def)
    qed
  qed
qed

lemma frequency_loop_first_match:
  "frequency_loop check string f_list i js
   = spec_first_match check (concat (map (spec_pair_candidates string f_list i) js))"
proof (induction js)
  case Nil
  then show ?case by simp
next
  case (Cons j js)
  show ?case
  proof (cases "get_key1 (fst i) (snd i) (fst (f_list ! j)) (fst (f_list ! (j + 1)))")
    case (Inl e)
    then show ?thesis by (simp add: spec_pair_candidates_def)
  next
    case r: (Inr r)
    show ?thesis
    proof (cases r)
      case None
      with r Cons.IH show ?thesis by (simp add: spec_pair_candidates_def)
    next
      case (Some key_1)
      with r Cons.IH show ?thesis
        by (simp add: spec_pair_candidates_def spec_first_match_append
            solution_loop_first_match split: sum.splits option.splits)
    qed
  qed
qed

lemma permutation_loop_first_match:
  "permutation_loop check string f_list is
   = spec_first_match check
       (concat (map (\<lambda>i. concat (map (spec_pair_candidates string f_list i)
                                     [0..<length f_list - 1])) is))"
  by (induction "is")
     (simp_all add: spec_first_match_append frequency_loop_first_match
       split: sum.splits option.splits)

text \<open>
  C6: \<open>gnc_keys\<close> (with \<open>check_bw=False\<close>) is the first-match search over the candidates
  in the fixed order: permutations of the reference digraphs outermost, adjacent pairs
  \<open>(j, j + 1)\<close> of the top \<open>f_size\<close> entries of the frequency table next, the \<open>a\<close>-values
  in the order \<open>get_key1\<close> returns them innermost. It emits the key and the decrypted text
  of the first candidate whose decryption passes the check and nothing after that candidate
  has any influence, not even a later candidate that would raise. The outcome is a
  function of the ciphertext, \<open>f_size\<close> and the check: the same on every run.
\<close>

theorem gnc_keys_first_match:
  "gnc_keys check string f_size = spec_first_match check (spec_candidates string f_size)"
  by (cases "get_bigrams_frequency string 1 True")
     (simp_all add: gnc_keys_def spec_candidates_def Let_def permutation_loop_first_match)

theorem gnc_keys_first_match_witness:
  "spec_first_match accept_all (spec_candidates [1072, 1073, 1074, 1075] 5)
   = Inr (Some ((721, 169), [1081, 1082, 1089, 1090]))"
proof -
  have "gnc_keys accept_all [1072, 1073, 1074, 1075] 5
        = Inr (Some ((721, 169), [1081, 1082, 1089, 1090]))"
    by code_simp
  then show ?thesis
    by (simp only: gnc_keys_first_match [of accept_all "[1072, 1073, 1074, 1075]" 5])
qed

section \<open>The search on malformed input\<close>

lemma index_py_Inr_mem: "index_py xs c = Inr i \<Longrightarrow> c \<in> set xs"
  using index_py_absent [of c xs] by (cases "c \<in> set xs") auto

lemma decrypt_loop_malformed:
  "odd (length s) \<or> \<not> set s \<subseteq> set ALPHABET \<Longrightarrow> decrypt_loop s key acc \<noteq> Inr t"
proof (induction s arbitrary: acc rule: induct_list012)
  case 1
  then show ?case by simp
next
  case (2 c)
  then show ?case by (simp split: sum.splits)
next
  case (3 c0 c1 rest)
  show ?case
  proof
    assume ok: "decrypt_loop (c0 # c1 # rest) key acc = Inr t"
    then obtain i0 i1 where i: "index_py ALPHABET c0 = Inr i0" "index_py ALPHABET c1 = Inr i1"
      by (auto split: sum.splits)
    then have mem: "c0 \<in> set ALPHABET" "c1 \<in> set ALPHABET"
      by (auto dest: index_py_Inr_mem)
    with "3.prems" have rest: "odd (length rest) \<or> \<not> set rest \<subseteq> set ALPHABET" by auto
    from ok i obtain acc' where "decrypt_loop rest key acc' = Inr t"
      by (auto simp: Let_def split: sum.splits option.splits prod.splits)
    with "3.IH"(1) [OF rest] show False by blast
  qed
qed

lemma bigram_number_error: "bigram_number s = Inl e \<Longrightarrow> e = ValueError \<or> e = IndexError"
  unfolding bigram_number_def
  by (auto simp: bindE_Inl_iff dest: getitem_error index_py_error)

lemma bigram_number_bounds: "bigram_number s = Inr n \<Longrightarrow> 0 \<le> n \<and> n < 961"
proof -
  assume "bigram_number s = Inr n"
  then obtain c0 c1 i0 i1 where "index_py ALPHABET c0 = Inr i0" "index_py ALPHABET c1 = Inr i1"
    and n: "n = i0 * 31 + i1"
    unfolding bigram_number_def by (auto simp: bindE_Inr_iff length_ALPHABET)
  then have "0 \<le> i0" "i0 < 31" "0 \<le> i1" "i1 < 31"
    by (auto dest!: index_py_Inr simp: length_ALPHABET)
  then show ?thesis using n by simp
qed

lemma solve_modulus_total:
  assumes "0 \<le> X1" "X1 < 961" "0 \<le> X2" "X2 < 961" "0 \<le> Y1" "Y1 < 961" "0 \<le> Y2" "Y2 < 961"
  shows "\<exists>r. solve_linear_comparison (Y1 - Y2) (X1 - X2) 961 = Inr r"
proof (cases "gcd (Y1 - Y2) 961 dvd (X1 - X2)")
  case True
  have "float_exact (Y1 - Y2)" "float_exact (X1 - X2)"
    using assms by (simp_all add: float_exact_difference)
  from solve_linear_comparison_solvable [OF _ this float_exact_961 True] show ?thesis by auto
next
  case False
  from solve_linear_comparison_unsolvable [OF _ this] show ?thesis by simp
qed

lemma get_key1_error:
  assumes "get_key1 x1 x2 y1 y2 = Inl e"
  shows "e = ValueError \<or> e = IndexError"
proof (cases "bigram_number x1")
  case (Inl e')
  with assms have "e = e'" by (simp add: get_key1_def)
  with Inl show ?thesis by (auto dest: bigram_number_error)
next
  case X1: (Inr X1)
  show ?thesis
  proof (cases "bigram_number x2")
    case (Inl e')
    with assms X1 have "e = e'" by (simp add: get_key1_def)
    with Inl show ?thesis by (auto dest: bigram_number_error)
  next
    case X2: (Inr X2)
    show ?thesis
    proof (cases "bigram_number y1")
      case (Inl e')
      with assms X1 X2 have "e = e'" by (simp add: get_key1_def)
      with Inl show ?thesis by (auto dest: bigram_number_error)
    next
      case Y1: (Inr Y1)
      show ?thesis
      proof (cases "bigram_number y2")
        case (Inl e')
        with assms X1 X2 Y1 have "e = e'" by (simp add: get_key1_def)
        with Inl show ?thesis by (auto dest: bigram_number_error)
      next
        case Y2: (Inr Y2)
        have b: "0 \<le> X1" "X1 < 961" "0 \<le> X2" "X2 < 961"
          "0 \<le> Y1" "Y1 < 961" "0 \<le> Y2" "Y2 < 961"
          using X1 X2 Y1 Y2 by (auto dest: bigram_number_bounds)
        from solve_modulus_total [OF b] obtain r where
          r: "solve_linear_comparison (Y1 - Y2) (X1 - X2) 961 = Inr r" by blast
        from assms X1 X2 Y1 Y2 r obtain rs where
          "mapE (\<lambda>i. get_inverse i 961) rs = Inl e"
          by (cases r) (auto simp: get_key1_def modulus_eq bindE_Inl_iff)
        from mapE_Inl [OF this] obtain t where "get_inverse t 961 = Inl e" by blast
        with get_inverse_total [of 961 t] show ?thesis by auto
      qed
    qed
  qed
qed

lemma get_key2_error: "get_key2 x1 y1 a = Inl e \<Longrightarrow> e = ValueError \<or> e = IndexError"
  unfolding get_key2_def by (auto simp: bindE_Inl_iff dest: bigram_number_error)

lemma solution_loop_malformed:
  assumes bad: "odd (length string) \<or> \<not> set string \<subseteq> set ALPHABET"
  shows "(\<And>a. a \<in> set key_1 \<Longrightarrow> \<exists>t d. get_inverse t modulus = Inr (d, Some a)) \<Longrightarrow>
         no_key (solution_loop check string i0 c key_1)"
proof (induction key_1)
  case Nil
  then show ?case by (simp add: no_key_def)
next
  case (Cons a rest)
  have m: "0 < modulus" by (simp add: modulus_eq)
  from Cons.prems [of a] obtain t d where "get_inverse t modulus = Inr (d, Some a)" by auto
  from get_inverse_of_inverse [OF m this] obtain v where
    v: "get_inverse a modulus = Inr (1, Some v)" by blast
  show ?case
  proof (cases "get_key2 i0 c a")
    case (Inl e)
    then show ?thesis using get_key2_error [OF Inl] by (auto simp: no_key_def)
  next
    case k2: (Inr k2)
    show ?thesis
    proof (cases "decrypt_from_affinity_sub string (a, k2)")
      case (Inl e)
      then have "e = ValueError \<or> e = IndexError"
        using decrypt_loop_error [OF v] by (simp add: decrypt_from_affinity_sub_def)
      with Inl k2 show ?thesis by (auto simp: no_key_def)
    next
      case (Inr d_text)
      with decrypt_loop_malformed [OF bad] show ?thesis
        by (simp add: decrypt_from_affinity_sub_def)
    qed
  qed
qed

lemma frequency_loop_malformed:
  assumes bad: "odd (length string) \<or> \<not> set string \<subseteq> set ALPHABET"
  shows "no_key (frequency_loop check string f_list i js)"
proof (induction js)
  case Nil
  then show ?case by (simp add: no_key_def)
next
  case (Cons j js)
  show ?case
  proof (cases "get_key1 (fst i) (snd i) (fst (f_list ! j)) (fst (f_list ! (j + 1)))")
    case (Inl e)
    then show ?thesis using get_key1_error [OF Inl] by (auto simp: no_key_def)
  next
    case r: (Inr r)
    show ?thesis
    proof (cases r)
      case None
      with r Cons.IH show ?thesis by simp
    next
      case (Some key_1)
      have "no_key (solution_loop check string (fst i) (fst (f_list ! j)) key_1)"
        using r Some by (intro solution_loop_malformed [OF bad] get_key1_member) auto
      with r Some Cons.IH show ?thesis
        by (auto simp: no_key_def)
    qed
  qed
qed

lemma permutation_loop_malformed:
  assumes bad: "odd (length string) \<or> \<not> set string \<subseteq> set ALPHABET"
  shows "no_key (permutation_loop check string f_list is)"
proof (induction "is")
  case Nil
  then show ?case by (simp add: no_key_def)
next
  case (Cons i "is")
  with frequency_loop_malformed [OF bad, of check f_list i "[0..<length f_list - 1]"]
  show ?case by (auto simp: no_key_def)
qed

text \<open>
  C8, amended: the key search has no validation step. For every input string that contains
  a symbol outside the alphabet or has odd length it never emits a key: it ends with no
  key found, or an alphabet lookup or a read past the end of the string raises ValueError
  or IndexError from inside the enumeration, when a candidate is derived or decrypted.
\<close>

theorem gnc_keys_malformed:
  assumes "odd (length string) \<or> \<not> set string \<subseteq> set ALPHABET"
  shows "gnc_keys check string f_size = Inr None \<or> gnc_keys check string f_size = Inl ValueError
         \<or> gnc_keys check string f_size = Inl IndexError"
  using permutation_loop_malformed [OF assms]
  by (simp add: gnc_keys_def get_bigrams_frequency_def no_key_def Let_def)

theorem gnc_keys_malformed_witness:
  "odd (length [1072, 1073, 1074 :: nat])
   \<and> (gnc_keys accept_all [1072, 1073, 1074] 5 = Inr None
        \<or> gnc_keys accept_all [1072, 1073, 1074] 5 = Inl ValueError
        \<or> gnc_keys accept_all [1072, 1073, 1074] 5 = Inl IndexError)"
proof -
  have h: "odd (length [1072, 1073, 1074 :: nat])" by simp
  then have "odd (length [1072, 1073, 1074 :: nat])
             \<or> \<not> set [1072, 1073, 1074] \<subseteq> set ALPHABET" by (rule disjI1)
  from gnc_keys_malformed [OF this, of accept_all 5] h show ?thesis by blast
qed

text \<open>
  C8 as stated fails: the one-symbol string U+0430 has odd length, and the search raises
  nothing: its frequency table is empty, no candidate is enumerated and it ends as it does
  when no key is found.
\<close>

theorem gnc_keys_malformed_counterexample:
  "odd (length [1072 :: nat]) \<and> gnc_keys accept_all [1072] 5 = Inr None"
  by (simp add: gnc_keys_def get_bigrams_frequency_def sorted_reverse_def slice_to_def
      permutations2_def MOST_FREQUENTLY_BIGRAMS_def)

end
